theory Spec2Isabelle
  imports Complex_Main "HOL-Library.Word"
begin

unbundle bit_operations_syntax

section \<open>Python values and library operations\<close>

text \<open>
  A \<open>bytes\<close> buffer is a list of unsigned 8-bit values. Iterating over it yields Python
  integers in \<open>0..255\<close>, read off with \<open>uint\<close> (or \<open>unat\<close> where the value is an index).
  Python integers are unbounded and modelled as \<open>int\<close>; list positions and loop counters
  that start at 0 or 1 and only grow are \<open>nat\<close>.

  Python floats are modelled as reals. In the bit-level tests, the chi-square test and the
  serial correlation the arithmetic is exact: rounding and overflow of IEEE doubles are not
  modelled there, and what is proved of these tests are integer results, literal results of
  early returns, the absence of exceptions and ranges that rounding to nearest preserves.
  In the entropy, whose value is sensitive to accumulated rounding, every double operation
  rounds its exact result with a rounding function \<open>fl\<close> that the model takes as an argument.
  The one non-finite float the program constructs, \<open>float("inf")\<close>, is a separate
  constructor.
\<close>

type_synonym u8 = "8 word"

datatype error = ZeroDivisionError | ValueError | IndexError | TypeError

datatype pyfloat = Finite real | PosInf

definition and_then :: "error + 'a \<Rightarrow> ('a \<Rightarrow> error + 'b) \<Rightarrow> error + 'b" where
  "and_then m f = (case m of Inl e \<Rightarrow> Inl e | Inr v \<Rightarrow> f v)"

text \<open>True division \<open>a / b\<close>: raises \<open>ZeroDivisionError\<close> on a zero divisor.\<close>

definition py_truediv :: "real \<Rightarrow> real \<Rightarrow> error + real" where
  "py_truediv a b = (if b = 0 then Inl ZeroDivisionError else Inr (a / b))"

text \<open>Remainder \<open>a % b\<close> on non-negative integers: raises on a zero divisor.\<close>

definition py_mod :: "nat \<Rightarrow> nat \<Rightarrow> error + nat" where
  "py_mod a b = (if b = 0 then Inl ZeroDivisionError else Inr (a mod b))"

text \<open>\<open>math.sqrt\<close>: raises \<open>ValueError\<close> (math domain error) on a negative argument.\<close>

definition py_sqrt :: "real \<Rightarrow> error + real" where
  "py_sqrt x = (if x < 0 then Inl ValueError else Inr (sqrt x))"

text \<open>
  \<open>math.log2\<close>: raises \<open>ValueError\<close> unless the argument is positive. The value is the C
  library's approximation of the binary logarithm, passed in as \<open>lg\<close>.
\<close>

definition py_log2 :: "(real \<Rightarrow> real) \<Rightarrow> real \<Rightarrow> error + real" where
  "py_log2 lg x = (if x \<le> 0 then Inl ValueError else Inr (lg x))"

text \<open>
  Float power \<open>x ** y\<close>. A negative base with a non-integral exponent gives a complex
  number in Python 3; the only use in the program passes the result on to \<open>math.erf\<close>,
  which rejects a complex argument with \<open>TypeError\<close>, so the model raises that error here.
  A zero base with a negative exponent raises \<open>ZeroDivisionError\<close>.
\<close>

definition py_pow :: "real \<Rightarrow> real \<Rightarrow> error + real" where
  "py_pow x y =
     (if y = 0 then Inr 1
      else if x = 0 then (if y < 0 then Inl ZeroDivisionError else Inr 0)
      else if x < 0 then
        (if y = of_int \<lfloor>y\<rfloor> then Inr (power_int x \<lfloor>y\<rfloor>) else Inl TypeError)
      else Inr (x powr y))"

text \<open>Indexing \<open>xs[i]\<close> with a non-negative index: raises \<open>IndexError\<close> out of range.\<close>

definition getitem :: "'a list \<Rightarrow> nat \<Rightarrow> error + 'a" where
  "getitem xs i = (if i < length xs then Inr (xs ! i) else Inl IndexError)"

text \<open>
  A \<open>for\<close> loop over a sequence whose body updates an accumulator and may raise:
  the first exception ends the loop.
\<close>

fun for_each :: "('a \<Rightarrow> 'b \<Rightarrow> error + 'b) \<Rightarrow> 'a list \<Rightarrow> 'b \<Rightarrow> error + 'b" where
  "for_each body [] acc = Inr acc"
| "for_each body (x # xs) acc =
     (case body x acc of Inl e \<Rightarrow> Inl e | Inr acc' \<Rightarrow> for_each body xs acc')"

section \<open>The bit view\<close>

text \<open>
  \<^verbatim>\<open>
  def bits_from_bytes(data):
      for b in data:
          for i in range(8):
              yield (b >> (7 - i)) & 1
  \<close>
  The generator is only ever consumed whole (\<open>list(bits_from_bytes(data))\<close>), so it is
  the list of the values it yields, in order.
\<close>

definition bits_from_bytes :: "u8 list \<Rightarrow> int list" where
  "bits_from_bytes data =
     concat (map (\<lambda>b. map (\<lambda>i. drop_bit (7 - i) (uint b) AND 1) [0..<8]) data)"

section \<open>The five tests\<close>

text \<open>
  \<open>math.erfc\<close> and \<open>math.erf\<close> belong to the C library, not to the program; the tests
  that call them take the function as their first argument.
\<close>

text \<open>
  \<^verbatim>\<open>
  def monobit_test(data):
      bs = list(bits_from_bytes(data))
      n = len(bs)
      if n == 0:
          return (0.0, 0.0, 0, 0)
      ones = sum(bs)
      zeros = n - ones
      s = abs(ones - zeros)
      z = s / math.sqrt(n)
      p = math.erfc(z / math.sqrt(2.0))
      return (p, z, ones, zeros)
  \<close>
\<close>

definition monobit_test :: "(real \<Rightarrow> real) \<Rightarrow> u8 list \<Rightarrow> error + (real \<times> real \<times> int \<times> int)" where
  "monobit_test erfc data =
     (let bs = bits_from_bytes data; n = int (length bs) in
      if n = 0 then Inr (0, 0, 0, 0)
      else
        let ones = sum_list bs; zeros = n - ones; s = \<bar>ones - zeros\<bar> in
        and_then (py_sqrt (of_int n)) (\<lambda>rn.
        and_then (py_truediv (of_int s) rn) (\<lambda>z.
        and_then (py_sqrt 2) (\<lambda>r2.
        and_then (py_truediv z r2) (\<lambda>a.
        Inr (erfc a, z, ones, zeros))))))"

text \<open>
  \<^verbatim>\<open>
  def runs_test(data):
      bs = list(bits_from_bytes(data))
      n = len(bs)
      if n < 2:
          return (0.0, 0, 0.0, 0.0)
      ones = sum(bs)
      zeros = n - ones
      if ones == 0 or zeros == 0:
          return (0.0, 1, 0.0, float("inf"))
      runs = 1
      for i in range(1, n):
          if bs[i] != bs[i - 1]:
              runs += 1
      expected = 1 + (2 * ones * zeros) / n
      variance = (2 * ones * zeros * (2 * ones * zeros - n)) / (n ** 2 * (n - 1))
      if variance <= 0:
          return (0.0, runs, expected, float("inf"))
      z = (runs - expected) / math.sqrt(variance)
      p = math.erfc(abs(z) / math.sqrt(2.0))
      return (p, runs, expected, z)
  \<close>
  The result is \<open>(p_value, num_runs, expected_runs, z)\<close>.
\<close>

definition runs_step :: "int list \<Rightarrow> nat \<Rightarrow> int \<Rightarrow> error + int" where
  "runs_step bs i runs =
     and_then (getitem bs i) (\<lambda>a.
     and_then (getitem bs (i - 1)) (\<lambda>b.
     Inr (if a \<noteq> b then runs + 1 else runs)))"

definition runs_test :: "(real \<Rightarrow> real) \<Rightarrow> u8 list \<Rightarrow> error + (real \<times> int \<times> real \<times> pyfloat)" where
  "runs_test erfc data =
     (let bs = bits_from_bytes data; n = length bs in
      if n < 2 then Inr (0, 0, 0, Finite 0)
      else
        let ones = sum_list bs; zeros = int n - ones in
        if ones = 0 \<or> zeros = 0 then Inr (0, 1, 0, PosInf)
        else
          and_then (for_each (runs_step bs) [1..<n] 1) (\<lambda>runs.
          and_then (py_truediv (of_int (2 * ones * zeros)) (of_nat n)) (\<lambda>q.
          let expected = 1 + q in
          and_then (py_truediv (of_int (2 * ones * zeros * (2 * ones * zeros - int n)))
                      (of_nat (n ^ 2 * (n - 1)))) (\<lambda>variance.
          if variance \<le> 0 then Inr (0, runs, expected, PosInf)
          else
            and_then (py_sqrt variance) (\<lambda>sv.
            and_then (py_truediv (of_int runs - expected) sv) (\<lambda>z.
            and_then (py_sqrt 2) (\<lambda>r2.
            and_then (py_truediv \<bar>z\<bar> r2) (\<lambda>a.
            Inr (erfc a, runs, expected, Finite z)))))))))"

text \<open>
  The histogram both byte-level tests build:
  \<^verbatim>\<open>
      counts = [0] * 256
      for b in data:
          counts[b] += 1
  \<close>
\<close>

definition count_step :: "u8 \<Rightarrow> int list \<Rightarrow> error + int list" where
  "count_step b counts =
     and_then (getitem counts (unat b)) (\<lambda>c. Inr (counts[unat b := c + 1]))"

definition count_bytes :: "u8 list \<Rightarrow> error + int list" where
  "count_bytes data = for_each count_step data (replicate 256 0)"

text \<open>
  \<^verbatim>\<open>
  def byte_chi_square(data):
      n = len(data)
      if n == 0:
          return (0.0, 0.0)
      counts = ...
      expected = n / 256.0
      chi = 0.0
      for c in counts:
          diff = c - expected
          chi += (diff * diff) / expected
      df = 255
      c = (chi / df) ** (1.0 / 3.0)
      mu = 1 - 2 / (9 * df)
      sigma = math.sqrt(2 / (9 * df))
      z = (c - mu) / sigma
      p = 1 - 0.5 * (1 + math.erf(z / math.sqrt(2)))
      return (chi, p)
  \<close>
\<close>

definition chi_step :: "real \<Rightarrow> int \<Rightarrow> real \<Rightarrow> error + real" where
  "chi_step expected c chi =
     (let diff = of_int c - expected in
      and_then (py_truediv (diff * diff) expected) (\<lambda>t. Inr (chi + t)))"

definition byte_chi_square :: "(real \<Rightarrow> real) \<Rightarrow> u8 list \<Rightarrow> error + (real \<times> real)" where
  "byte_chi_square erf data =
     (let n = length data in
      if n = 0 then Inr (0, 0)
      else
        and_then (count_bytes data) (\<lambda>counts.
        and_then (py_truediv (of_nat n) 256) (\<lambda>expected.
        and_then (for_each (chi_step expected) counts 0) (\<lambda>chi.
        let df = 255 :: int in
        and_then (py_truediv chi (of_int df)) (\<lambda>q.
        and_then (py_truediv 1 3) (\<lambda>third.
        and_then (py_pow q third) (\<lambda>c.
        and_then (py_truediv 2 (of_int (9 * df))) (\<lambda>m.
        let mu = 1 - m in
        and_then (py_truediv 2 (of_int (9 * df))) (\<lambda>v.
        and_then (py_sqrt v) (\<lambda>sigma.
        and_then (py_truediv (c - mu) sigma) (\<lambda>z.
        and_then (py_sqrt 2) (\<lambda>r2.
        and_then (py_truediv z r2) (\<lambda>a.
        Inr (chi, 1 - 0.5 * (1 + erf a)))))))))))))))"

text \<open>
  \<^verbatim>\<open>
  def shannon_entropy_per_byte(data):
      if not data:
          return 0.0
      counts = ...
      n = len(data)
      entropy = 0.0
      for c in counts:
          if c == 0:
              continue
          p = c / n
          entropy -= p * math.log2(p)
      return entropy
  \<close>
\<close>

text \<open>
  The quotient \<open>c / n\<close> of two integers is the double nearest to the exact quotient, the
  product \<open>p * math.log2(p)\<close> and the subtraction from \<open>entropy\<close> are each rounded:
  \<open>fl\<close> is that rounding and \<open>lg\<close> the library's \<open>log2\<close>.
\<close>

definition entropy_step ::
  "(real \<Rightarrow> real) \<Rightarrow> (real \<Rightarrow> real) \<Rightarrow> nat \<Rightarrow> int \<Rightarrow> real \<Rightarrow> error + real" where
  "entropy_step fl lg n c entropy =
     (if c = 0 then Inr entropy
      else
        and_then (py_truediv (of_int c) (of_nat n)) (\<lambda>q.
        let p = fl q in
        and_then (py_log2 lg p) (\<lambda>l.
        Inr (fl (entropy - fl (p * l))))))"

definition shannon_entropy_per_byte ::
  "(real \<Rightarrow> real) \<Rightarrow> (real \<Rightarrow> real) \<Rightarrow> u8 list \<Rightarrow> error + real" where
  "shannon_entropy_per_byte fl lg data =
     (if data = [] then Inr 0
      else
        and_then (count_bytes data) (\<lambda>counts.
        let n = length data in
        for_each (entropy_step fl lg n) counts 0))"

text \<open>
  \<^verbatim>\<open>
  def serial_correlation(data):
      n = len(data)
      if n < 2:
          return 0.0
      s1 = sum(data)
      s2 = sum(b * b for b in data)
      s12 = sum(data[i] * data[(i + 1) % n] for i in range(n))
      numerator = n * s12 - s1 * s1
      denominator = n * s2 - s1 * s1
      if denominator == 0:
          return 0.0
      return numerator / denominator
  \<close>
\<close>

definition lag_step :: "u8 list \<Rightarrow> nat \<Rightarrow> nat \<Rightarrow> int \<Rightarrow> error + int" where
  "lag_step data n i acc =
     and_then (getitem data i) (\<lambda>a.
     and_then (py_mod (i + 1) n) (\<lambda>k.
     and_then (getitem data k) (\<lambda>b.
     Inr (acc + uint a * uint b))))"

definition serial_correlation :: "u8 list \<Rightarrow> error + real" where
  "serial_correlation data =
     (let n = length data in
      if n < 2 then Inr 0
      else
        let s1 = sum_list (map uint data);
            s2 = sum_list (map (\<lambda>b. uint b * uint b) data) in
        and_then (for_each (lag_step data n) [0..<n] 0) (\<lambda>s12.
        let numerator = int n * s12 - s1 * s1;
            denominator = int n * s2 - s1 * s1 in
        if denominator = 0 then Inr 0
        else py_truediv (of_int numerator) (of_int denominator)))"

section \<open>Properties of the bit view\<close>

lemma concat_chunks_length:
  assumes "\<And>x. length (f x) = m"
  shows "length (concat (map f xs)) = m * length xs"
  using assms by (induction xs) simp_all

lemma concat_chunks_nth:
  assumes "\<And>x. length (f x) = m" and "i < length xs" and "j < m"
  shows "concat (map f xs) ! (m * i + j) = f (xs ! i) ! j"
  using assms(2)
proof (induction xs arbitrary: i)
  case Nil
  then show ?case by simp
next
  case (Cons x xs)
  show ?case
  proof (cases i)
    case 0
    then show ?thesis using assms(1,3) by (simp add: nth_append)
  next
    case (Suc i')
    with Cons.prems have "i' < length xs" by simp
    from Cons.IH [OF this] Suc show ?thesis
      using assms(1) by (simp add: nth_append add.assoc)
  qed
qed

lemma bit_value: "drop_bit k (uint (b :: u8)) AND 1 = (if bit b k then 1 else 0)"
  by (auto simp add: and_one_eq mod_2_eq_odd bit_uint_iff simp flip: bit_iff_odd_drop_bit
      dest: bit_imp_le_length)

lemma bits_from_bytes_length: "length (bits_from_bytes data) = 8 * length data"
  unfolding bits_from_bytes_def by (rule concat_chunks_length) simp

lemma bits_from_bytes_nth:
  assumes "i < length data" and "j < 8"
  shows "bits_from_bytes data ! (8 * i + j) = (if bit (data ! i) (7 - j) then 1 else 0)"
proof -
  let ?f = "\<lambda>b :: u8. map (\<lambda>i. drop_bit (7 - i) (uint b) AND 1) [0..<8]"
  have "concat (map ?f data) ! (8 * i + j) = ?f (data ! i) ! j"
    by (rule concat_chunks_nth) (use assms in simp_all)
  also have "\<dots> = (if bit (data ! i) (7 - j) then 1 else 0)"
    using assms(2) by (simp add: bit_value del: upt_Suc)
  finally show ?thesis by (simp add: bits_from_bytes_def)
qed

text \<open>
  C4. For every byte buffer of length \<open>n\<close>, \<open>bits_from_bytes\<close> yields exactly \<open>8 * n\<close>
  bits, each 0 or 1; the bit at position \<open>8 * i + j\<close> (with \<open>j < 8\<close>) is bit \<open>7 - j\<close> of
  byte \<open>i\<close>, so every byte is emitted most-significant bit first; the empty buffer yields
  the empty sequence.
\<close>

theorem bits_from_bytes_msb_first:
  "length (bits_from_bytes data) = 8 * length data \<and>
   (\<forall>k. k < 8 * length data \<longrightarrow> bits_from_bytes data ! k = 0 \<or> bits_from_bytes data ! k = 1) \<and>
   (\<forall>i j. i < length data \<and> j < 8 \<longrightarrow>
      bits_from_bytes data ! (8 * i + j) = (if bit (data ! i) (7 - j) then 1 else 0)) \<and>
   bits_from_bytes [] = []"
proof -
  have "bits_from_bytes data ! k = 0 \<or> bits_from_bytes data ! k = 1"
    if "k < 8 * length data" for k
  proof -
    have k: "k = 8 * (k div 8) + k mod 8" by simp
    have "k div 8 < length data" using that by (simp add: less_mult_imp_div_less mult.commute)
    from bits_from_bytes_nth [OF this, of "k mod 8"] k show ?thesis
      by (metis mod_less_divisor zero_less_numeral)
  qed
  moreover have "bits_from_bytes [] = []" by (simp add: bits_from_bytes_def)
  ultimately show ?thesis
    using bits_from_bytes_length bits_from_bytes_nth by blast
qed

theorem bits_from_bytes_msb_first_witness:
  "length (bits_from_bytes [0xA5, 0x01]) = 16 \<and>
   bits_from_bytes [0xA5, 0x01] ! 0 = 1 \<and>
   bits_from_bytes [0xA5, 0x01] ! 1 = 0 \<and>
   bits_from_bytes [0xA5, 0x01] ! 15 = 1 \<and>
   bits_from_bytes [0xA5, 0x01] = [1, 0, 1, 0, 0, 1, 0, 1, 0, 0, 0, 0, 0, 0, 0, 1]"
proof -
  have b: "bits_from_bytes [0xA5, 0x01] = [1, 0, 1, 0, 0, 1, 0, 1, 0, 0, 0, 0, 0, 0, 0, 1]"
    by (simp add: bits_from_bytes_def upt_conv_Cons)
  have "length (bits_from_bytes [0xA5, 0x01]) = 8 * length [0xA5 :: u8, 0x01]"
    using bits_from_bytes_msb_first [of "[0xA5, 0x01]"] by blast
  then show ?thesis using b by simp
qed

section \<open>Evaluation lemmas\<close>

lemma and_then_Inr [simp]: "and_then (Inr v) f = f v"
  by (simp add: and_then_def)

lemma and_then_Inl [simp]: "and_then (Inl e) f = Inl e"
  by (simp add: and_then_def)

lemma for_each_pure:
  assumes "\<And>x acc. x \<in> set xs \<Longrightarrow> body x acc = Inr (g x acc)"
  shows "for_each body xs acc = Inr (fold g xs acc)"
  using assms by (induction xs arbitrary: acc) simp_all

section \<open>The monobit test\<close>

lemma bits_from_bytes_range: "b \<in> set (bits_from_bytes data) \<Longrightarrow> b = 0 \<or> b = 1"
  by (auto simp: bits_from_bytes_def bit_value)

lemma sum_bits_bounds: "0 \<le> sum_list (bits_from_bytes data) \<and> sum_list (bits_from_bytes data) \<le> int (length (bits_from_bytes data))"
proof -
  have "(\<And>b. b \<in> set bs \<Longrightarrow> b = 0 \<or> b = 1) \<Longrightarrow> 0 \<le> sum_list bs \<and> sum_list bs \<le> int (length bs)" for bs :: "int list"
    by (induction bs) fastforce+
  then show ?thesis using bits_from_bytes_range by blast
qed

lemma bits_from_bytes_Nil [simp]: "bits_from_bytes [] = []"
  by (simp add: bits_from_bytes_def)

lemma monobit_test_value:
  "monobit_test erfc data =
     (if data = [] then Inr (0, 0, 0, 0)
      else let n = 8 * int (length data); ones = sum_list (bits_from_bytes data); zeros = n - ones in
        Inr (erfc (\<bar>ones - zeros\<bar> / sqrt (2 * n)), \<bar>ones - zeros\<bar> / sqrt n, ones, zeros))"
proof (cases "data = []")
  case True
  then show ?thesis by (simp add: monobit_test_def)
next
  case False
  define n where "n = 8 * int (length data)"
  have n: "0 < n" "int (length (bits_from_bytes data)) = n"
    using False by (simp_all add: n_def bits_from_bytes_length)
  have sq: "sqrt (real_of_int n) * sqrt 2 = sqrt (2 * real_of_int n)"
    by (simp add: real_sqrt_mult)
  have ne: "bits_from_bytes data \<noteq> []"
    using n by auto
  show ?thesis
    using False n ne by (simp add: monobit_test_def Let_def py_sqrt_def py_truediv_def sq flip: n_def)
qed

text \<open>
  C5. For every byte buffer the result of \<open>monobit_test\<close> satisfies
  \<open>ones + zeros = n\<close> with \<open>n = 8 * len(buffer)\<close>, and \<open>0 \<le> p_value \<le> 1\<close>, where
  \<open>p_value = erfc (|ones - zeros| / sqrt (2 * n))\<close> for \<open>n > 0\<close>; \<open>ones\<close> is the number
  of one bits; and for \<open>n = 0\<close> the result is exactly \<open>(0.0, 0.0, 0, 0)\<close>. The
  complementary error function is the library's; what is used of it is that it maps
  non-negative arguments into \<open>[0, 1]\<close>.
\<close>

theorem monobit_invariant:
  assumes "\<And>x. 0 \<le> x \<Longrightarrow> 0 \<le> erfc x \<and> erfc x \<le> 1"
  shows "(\<exists>p z ones zeros. monobit_test erfc data = Inr (p, z, ones, zeros) \<and>
     ones = sum_list (bits_from_bytes data) \<and>
     ones + zeros = 8 * int (length data) \<and> 0 \<le> p \<and> p \<le> 1 \<and>
     p = (if data = [] then 0 else erfc (\<bar>ones - zeros\<bar> / sqrt (2 * (8 * int (length data)))))) \<and>
    (data = [] \<longrightarrow> monobit_test erfc data = Inr (0, 0, 0, 0))"
proof (cases "data = []")
  case True
  then show ?thesis by (simp add: monobit_test_value)
next
  case False
  let ?ones = "sum_list (bits_from_bytes data)"
  let ?zeros = "8 * int (length data) - ?ones"
  let ?a = "\<bar>?ones - ?zeros\<bar> / sqrt (2 * (8 * int (length data)))"
  have "0 \<le> ?a" by simp
  from assms [OF this] have "0 \<le> erfc ?a \<and> erfc ?a \<le> 1" .
  with False show ?thesis by (simp add: monobit_test_value Let_def)
qed

theorem monobit_invariant_witness:
  "(\<exists>p z. monobit_test (\<lambda>x. 1 / (1 + x)) [0xFF, 0x0F] = Inr (p, z, 12, 4) \<and> 0 \<le> p \<and> p \<le> 1) \<and>
   monobit_test (\<lambda>x. 1 / (1 + x)) [] = Inr (0, 0, 0, 0)"
proof -
  have e: "\<And>x::real. 0 \<le> x \<Longrightarrow> 0 \<le> 1 / (1 + x) \<and> 1 / (1 + x) \<le> 1" by simp
  from monobit_invariant [of "\<lambda>x. 1 / (1 + x)" "[0xFF, 0x0F]", OF e]
  obtain p z ones zeros where r: "monobit_test (\<lambda>x. 1 / (1 + x)) [0xFF, 0x0F] = Inr (p, z, ones, zeros)"
    and p: "0 \<le> p" "p \<le> 1" by blast
  have "sum_list (bits_from_bytes [0xFF, 0x0F]) = 12"
    by (simp add: bits_from_bytes_def upt_conv_Cons)
  with r have "ones = 12" "zeros = 4" by (simp_all add: monobit_test_value Let_def)
  with r p have "\<exists>p z. monobit_test (\<lambda>x. 1 / (1 + x)) [0xFF, 0x0F] = Inr (p, z, 12, 4) \<and> 0 \<le> p \<and> p \<le> 1"
    by blast
  moreover have "monobit_test (\<lambda>x. 1 / (1 + x)) [] = Inr (0, 0, 0, 0)"
    using monobit_invariant [of "\<lambda>x. 1 / (1 + x)" "[]", OF e] by blast
  ultimately show ?thesis by blast
qed

section \<open>The runs test\<close>

lemma runs_loop:
  "for_each (runs_step bs) [1..<length bs] 1 =
     Inr (fold (\<lambda>i r. if bs ! i \<noteq> bs ! (i - 1) then r + 1 else r) [1..<length bs] 1)"
  by (rule for_each_pure) (auto simp add: runs_step_def getitem_def)

lemma py_truediv_Inr: "b \<noteq> 0 \<Longrightarrow> py_truediv a b = Inr (a / b)"
  by (simp add: py_truediv_def)

lemma py_sqrt_Inr: "0 \<le> x \<Longrightarrow> py_sqrt x = Inr (sqrt x)"
  by (simp add: py_sqrt_def)

lemma fold_count_bounds:
  "a \<le> fold (\<lambda>i r. if P i then r + 1 else r) xs (a :: int) \<and>
   fold (\<lambda>i r. if P i then r + 1 else r) xs a \<le> a + int (length xs)"
proof (induction xs arbitrary: a)
  case Nil
  then show ?case by simp
next
  case (Cons x xs)
  from Cons.IH [of "a + 1"] Cons.IH [of a] show ?case by auto
qed

lemma runs_test_empty: "runs_test erfc [] = Inr (0, 0, 0, Finite 0)"
  by (simp add: runs_test_def)

lemma runs_test_short:
  "length (bits_from_bytes data) < 2 \<Longrightarrow> runs_test erfc data = Inr (0, 0, 0, Finite 0)"
  by (simp add: runs_test_def)

lemma runs_test_constant:
  assumes "data \<noteq> []"
    and "sum_list (bits_from_bytes data) = 0 \<or>
         int (length (bits_from_bytes data)) - sum_list (bits_from_bytes data) = 0"
  shows "runs_test erfc data = Inr (0, 1, 0, PosInf)"
proof -
  have "\<not> length (bits_from_bytes data) < 2"
    using assms(1) by (cases data) (simp_all add: bits_from_bytes_length)
  then show ?thesis using assms(2) by (auto simp add: runs_test_def Let_def)
qed

lemma runs_tail:
  "\<exists>p z. (if V \<le> 0 then Inr (0, R, E, PosInf)
      else
        and_then (py_sqrt V) (\<lambda>sv.
        and_then (py_truediv (X - E) sv) (\<lambda>z.
        and_then (py_sqrt 2) (\<lambda>r2.
        and_then (py_truediv \<bar>z\<bar> r2) (\<lambda>a.
        Inr (erfc a, R, E, Finite z)))))) = Inr (p, R :: int, E :: real, z)"
  by (cases "V \<le> 0") (simp_all add: py_sqrt_def py_truediv_def)

lemma runs_test_general:
  assumes "data \<noteq> []"
    and "sum_list (bits_from_bytes data) \<noteq> 0"
    and "int (length (bits_from_bytes data)) - sum_list (bits_from_bytes data) \<noteq> 0"
  shows "\<exists>p z. runs_test erfc data =
     Inr (p,
          fold (\<lambda>i r. if bits_from_bytes data ! i \<noteq> bits_from_bytes data ! (i - 1) then r + 1 else r)
            [1..<length (bits_from_bytes data)] 1,
          1 + real_of_int (2 * sum_list (bits_from_bytes data) *
                (int (length (bits_from_bytes data)) - sum_list (bits_from_bytes data))) /
              real (length (bits_from_bytes data)),
          z)"
proof -
  let ?bs = "bits_from_bytes data"
  let ?n = "length ?bs"
  have len: "8 \<le> ?n"
    using assms(1) by (cases data) (simp_all add: bits_from_bytes_length)
  have n2: "(?n < 2) = False"
    using len by simp
  have nc: "(sum_list ?bs = 0 \<or> int ?n - sum_list ?bs = 0) = False"
    using assms(2,3) by simp
  have d1: "py_truediv a (real ?n) = Inr (a / real ?n)" for a
    using len by (auto simp add: py_truediv_def)
  have "?n ^ 2 * (?n - 1) \<noteq> 0"
    using len by auto
  then have d2: "py_truediv a (real (?n ^ 2 * (?n - 1))) = Inr (a / real (?n ^ 2 * (?n - 1)))" for a
    unfolding py_truediv_def by (simp only: of_nat_eq_0_iff if_False)
  show ?thesis
    by (simp only: runs_test_def Let_def n2 nc if_False runs_loop d1 d2 and_then_Inr)
      (rule runs_tail)
qed

text \<open>
  C6. For every non-empty byte buffer (bit count \<open>n = 8 * len(buffer) \<ge> 1\<close>) the \<open>runs\<close>
  value returned by \<open>runs_test\<close> satisfies \<open>1 \<le> runs \<le> n\<close>.
\<close>

theorem runs_bounds:
  assumes "data \<noteq> []"
  shows "\<exists>p runs e z. runs_test erfc data = Inr (p, runs, e, z) \<and>
           1 \<le> runs \<and> runs \<le> 8 * int (length data)"
proof (cases "sum_list (bits_from_bytes data) = 0 \<or>
         int (length (bits_from_bytes data)) - sum_list (bits_from_bytes data) = 0")
  case True
  from runs_test_constant [OF assms True] assms show ?thesis
    by (cases data) auto
next
  case False
  let ?bs = "bits_from_bytes data"
  let ?r = "fold (\<lambda>i r. if ?bs ! i \<noteq> ?bs ! (i - 1) then r + 1 else r) [1..<length ?bs] (1::int)"
  from False runs_test_general [OF assms, of erfc]
  obtain p e z where r: "runs_test erfc data = Inr (p, ?r, e, z)" by blast
  have "1 \<le> ?r \<and> ?r \<le> 1 + int (length [1..<length ?bs])"
    by (rule fold_count_bounds)
  moreover have "1 + int (length [1..<length ?bs]) = 8 * int (length data)"
    using assms by (cases data) (simp_all add: bits_from_bytes_length)
  ultimately show ?thesis using r by auto
qed

theorem runs_bounds_witness:
  "\<exists>p runs e z. runs_test (\<lambda>x. 1 / (1 + x)) [0xF0] = Inr (p, runs, e, z) \<and> 1 \<le> runs \<and> runs \<le> 8"
  using runs_bounds [of "[0xF0]" "\<lambda>x. 1 / (1 + x)"] by simp

lemma bits_from_bytes_Cons:
  "bits_from_bytes (b # data) =
     map (\<lambda>i. drop_bit (7 - i) (uint b) AND 1) [0..<8] @ bits_from_bytes data"
  by (simp add: bits_from_bytes_def)

lemma zero_buffer_ones: "sum_list (bits_from_bytes (replicate k 0)) = 0"
  by (induction k) (simp_all add: bits_from_bytes_Cons upt_conv_Cons)

lemma ones_zero_all_zero:
  assumes "sum_list (bits_from_bytes data) = 0" and "b \<in> set (bits_from_bytes data)"
  shows "b = 0"
proof -
  have "\<And>x. x \<in> set (bits_from_bytes data) \<Longrightarrow> 0 \<le> x"
    using bits_from_bytes_range by fastforce
  then have "\<forall>x\<in>set (bits_from_bytes data). x = 0"
    using assms(1) by (simp add: sum_list_nonneg_eq_0_iff)
  then show ?thesis using assms(2) by blast
qed

lemma sum_list_complement: "sum_list (map (\<lambda>b. 1 - b) bs) = int (length bs) - sum_list bs"
  by (induction bs) simp_all

lemma zeros_zero_all_one:
  assumes "int (length (bits_from_bytes data)) - sum_list (bits_from_bytes data) = 0"
    and "b \<in> set (bits_from_bytes data)"
  shows "b = 1"
proof -
  let ?cs = "map (\<lambda>b. 1 - b) (bits_from_bytes data)"
  have "\<And>x. x \<in> set ?cs \<Longrightarrow> 0 \<le> x"
    using bits_from_bytes_range by fastforce
  moreover have "sum_list ?cs = 0"
    using assms(1) by (simp only: sum_list_complement)
  ultimately have "\<forall>x\<in>set ?cs. x = 0"
    by (simp only: sum_list_nonneg_eq_0_iff)
  then have "1 - b = 0" using assms(2) by simp
  then show ?thesis by simp
qed

text \<open>
  C7. For every non-empty byte buffer whose bit sequence is constant (\<open>ones = 0\<close> or
  \<open>zeros = 0\<close>; then all bits are indeed equal), \<open>runs_test\<close> returns \<open>runs = 1\<close>,
  \<open>z = +infinity\<close> and \<open>p_value = 0\<close>; an all-zero buffer of any positive length is
  such a buffer.
\<close>

theorem runs_test_constant_sequence:
  "(data \<noteq> [] \<and>
    (sum_list (bits_from_bytes data) = 0 \<or>
     int (length (bits_from_bytes data)) - sum_list (bits_from_bytes data) = 0) \<longrightarrow>
      (\<exists>c. \<forall>b \<in> set (bits_from_bytes data). b = c) \<and>
      (\<exists>e. runs_test erfc data = Inr (0, 1, e, PosInf))) \<and>
   (\<exists>e. runs_test erfc (replicate (Suc k) 0) = Inr (0, 1, e, PosInf))"
proof -
  have "\<exists>e. runs_test erfc (replicate (Suc k) 0) = Inr (0, 1, e, PosInf)"
    using runs_test_constant [of "replicate (Suc k) 0" erfc] zero_buffer_ones [of "Suc k"]
    by simp
  moreover have "\<exists>c. \<forall>b \<in> set (bits_from_bytes data). b = c"
    if "sum_list (bits_from_bytes data) = 0 \<or>
        int (length (bits_from_bytes data)) - sum_list (bits_from_bytes data) = 0"
    using that ones_zero_all_zero zeros_zero_all_one by blast
  ultimately show ?thesis
    using runs_test_constant [of data erfc] by blast
qed

theorem runs_test_constant_sequence_witness:
  "(\<exists>c. \<forall>b \<in> set (bits_from_bytes [0xFF, 0xFF]). b = c) \<and>
   (\<exists>e. runs_test (\<lambda>x. 1 / (1 + x)) [0xFF, 0xFF] = Inr (0, 1, e, PosInf)) \<and>
   (\<exists>e. runs_test (\<lambda>x. 1 / (1 + x)) [0, 0, 0] = Inr (0, 1, e, PosInf))"
proof -
  have "sum_list (bits_from_bytes [0xFF, 0xFF]) = 16" "length (bits_from_bytes [0xFF, 0xFF]) = 16"
    by (simp_all add: bits_from_bytes_def upt_conv_Cons)
  then have "[0xFF, 0xFF :: u8] \<noteq> [] \<and>
    (sum_list (bits_from_bytes [0xFF, 0xFF]) = 0 \<or>
     int (length (bits_from_bytes [0xFF, 0xFF])) - sum_list (bits_from_bytes [0xFF, 0xFF]) = 0)"
    by simp
  moreover have "replicate (Suc 2) (0 :: u8) = [0, 0, 0]"
    by (simp add: numeral_2_eq_2)
  ultimately show ?thesis
    using runs_test_constant_sequence [of "[0xFF, 0xFF]" "\<lambda>x. 1 / (1 + x)" 2]
    by (simp only:) blast
qed

text \<open>
  C10. For a non-empty buffer with a constant bit sequence \<open>runs_test\<close> returns
  \<open>expected_runs = 0\<close>, not the value 1 the general formula \<open>1 + 2 * ones * zeros / n\<close>
  has there; and the branch for fewer than two bits returns \<open>runs = 0\<close> with
  \<open>expected_runs = 0\<close>.
\<close>

theorem runs_test_short_circuit:
  "(data \<noteq> [] \<and>
    (sum_list (bits_from_bytes data) = 0 \<or>
     int (length (bits_from_bytes data)) - sum_list (bits_from_bytes data) = 0) \<longrightarrow>
      (\<exists>p r z. runs_test erfc data = Inr (p, r, 0, z)) \<and>
      1 + real_of_int (2 * sum_list (bits_from_bytes data) *
            (int (length (bits_from_bytes data)) - sum_list (bits_from_bytes data))) /
          real (length (bits_from_bytes data)) = 1) \<and>
   (length (bits_from_bytes data) < 2 \<longrightarrow> runs_test erfc data = Inr (0, 0, 0, Finite 0))"
  using runs_test_constant [of data erfc] runs_test_short [of data erfc] by auto

theorem runs_test_short_circuit_witness:
  "(\<exists>p r z. runs_test (\<lambda>x. 1 / (1 + x)) [0x00] = Inr (p, r, 0, z)) \<and>
   runs_test (\<lambda>x. 1 / (1 + x)) [] = Inr (0, 0, 0, Finite 0)"
proof -
  have "sum_list (bits_from_bytes [0x00]) = 0"
    by (simp add: bits_from_bytes_def upt_conv_Cons)
  then show ?thesis
    using runs_test_short_circuit [of "[0x00]" "\<lambda>x. 1 / (1 + x)"]
      runs_test_short_circuit [of "[]" "\<lambda>x. 1 / (1 + x)"]
    by simp
qed

lemma alternating_bits:
  "bits_from_bytes [0xFF, 0x00, 0xFF, 0x00] =
     [1, 1, 1, 1, 1, 1, 1, 1, 0, 0, 0, 0, 0, 0, 0, 0, 1, 1, 1, 1, 1, 1, 1, 1, 0, 0, 0, 0, 0, 0, 0, 0]"
  by (simp add: bits_from_bytes_def upt_conv_Cons)

lemma alternating_runs:
  "\<exists>p e z. runs_test erfc [0xFF, 0x00, 0xFF, 0x00] = Inr (p, 4, e, z)"
proof -
  have "\<exists>p z. runs_test erfc [0xFF, 0x00, 0xFF, 0x00] = Inr (p, 4, 17, z)"
    using runs_test_general [of "[0xFF, 0x00, 0xFF, 0x00]" erfc]
    by (simp add: alternating_bits upt_conv_Cons)
  then show ?thesis by blast
qed

text \<open>
  C1, as the program has it. For the buffer \<open>[0xFF, 0x00, 0xFF, 0x00]\<close> the bit sequence
  has 16 ones and 16 zeros, and \<open>runs_test\<close> counts 4 runs: the bits flip at the three
  byte boundaries only, not at every bit.
\<close>

theorem alternating_buffer:
  "(\<exists>p z. monobit_test erfc [0xFF, 0x00, 0xFF, 0x00] = Inr (p, z, 16, 16)) \<and>
   (\<exists>p e z. runs_test erfc [0xFF, 0x00, 0xFF, 0x00] = Inr (p, 4, e, z))"
  using alternating_runs [of erfc] by (simp add: monobit_test_value alternating_bits)

text \<open>
  C1, as stated, fails: on \<open>[0xFF, 0x00, 0xFF, 0x00]\<close> the run count is never 8,
  whatever the error function.
\<close>

theorem alternating_buffer_not_8_runs:
  "\<not> (\<exists>erfc p e z. runs_test erfc [0xFF, 0x00, 0xFF, 0x00] = Inr (p, 8, e, z))"
proof
  assume "\<exists>erfc p e z. runs_test erfc [0xFF, 0x00, 0xFF, 0x00] = Inr (p, 8, e, z)"
  then obtain erfc p e z where "runs_test erfc [0xFF, 0x00, 0xFF, 0x00] = Inr (p, 8, e, z)"
    by blast
  with alternating_runs [of erfc] show False by auto
qed

section \<open>The byte histogram\<close>

lemma count_step_Inr:
  "length cs = 256 \<Longrightarrow> count_step b cs = Inr (cs[unat b := cs ! unat b + 1])"
proof -
  have "unat b < 256" using unsigned_less [of b] by simp
  then show "length cs = 256 \<Longrightarrow> ?thesis"
    by (simp add: count_step_def getitem_def)
qed

lemma byte_index_eq: "v < 256 \<Longrightarrow> (b = (of_nat v :: u8)) = (v = unat b)"
  by (auto simp add: unat_of_nat)

lemma count_loop:
  "length cs = 256 \<Longrightarrow>
   for_each count_step data cs =
     Inr (map (\<lambda>v. cs ! v + int (count_list data (of_nat v))) [0..<256])"
proof (induction data arbitrary: cs)
  case Nil
  have "map (\<lambda>v. cs ! v) [0..<length cs] = cs" by (rule map_nth)
  with Nil show ?case by simp
next
  case (Cons b data)
  let ?cs = "cs[unat b := cs ! unat b + 1]"
  have "for_each count_step (b # data) cs = for_each count_step data ?cs"
    using Cons.prems by (simp add: count_step_Inr)
  also have "\<dots> = Inr (map (\<lambda>v. ?cs ! v + int (count_list data (of_nat v))) [0..<256])"
    using Cons.prems by (intro Cons.IH) simp
  also have "map (\<lambda>v. ?cs ! v + int (count_list data (of_nat v))) [0..<256] =
             map (\<lambda>v. cs ! v + int (count_list (b # data) (of_nat v))) [0..<256]"
    using Cons.prems by (auto simp add: nth_list_update byte_index_eq)
  finally show ?case .
qed

lemma count_bytes_value:
  "count_bytes data = Inr (map (\<lambda>v. int (count_list data (of_nat v))) [0..<256])"
proof -
  have "for_each count_step data (replicate 256 0) =
     Inr (map (\<lambda>v. replicate 256 0 ! v + int (count_list data (of_nat v))) [0..<256])"
    by (rule count_loop) simp
  also have "map (\<lambda>v. replicate 256 (0::int) ! v + int (count_list data (of_nat v))) [0..<256] =
    map (\<lambda>v. int (count_list data (of_nat v))) [0..<256]"
    by simp
  finally show ?thesis by (simp only: count_bytes_def)
qed

lemma fold_plus: "fold (\<lambda>c e. e + f c) xs (a :: real) = a + sum_list (map f xs)"
  by (induction xs arbitrary: a) simp_all

section \<open>The byte chi-square test\<close>

lemma chi_loop:
  assumes "e \<noteq> 0"
  shows "for_each (chi_step e) cs 0 =
    Inr (sum_list (map (\<lambda>c. (real_of_int c - e) * (real_of_int c - e) / e) cs))"
proof -
  have "for_each (chi_step e) cs 0 =
      Inr (fold (\<lambda>c chi. chi + (real_of_int c - e) * (real_of_int c - e) / e) cs 0)"
    by (rule for_each_pure) (simp add: chi_step_def py_truediv_def Let_def assms)
  then show ?thesis by (simp only: fold_plus) simp
qed

lemma chi_terms_nonneg:
  "0 < e \<Longrightarrow> 0 \<le> sum_list (map (\<lambda>c. (real_of_int c - e) * (real_of_int c - e) / e) cs)"
  by (rule sum_list_nonneg) auto

lemma py_pow_third: "0 \<le> q \<Longrightarrow> py_pow q (1 / 3) = Inr (q powr (1 / 3))"
  by (simp add: py_pow_def)

lemma chi_tail:
  assumes "0 \<le> chi"
  shows "(let df = 255 :: int in
        and_then (py_truediv chi (of_int df)) (\<lambda>q.
        and_then (py_truediv 1 3) (\<lambda>third.
        and_then (py_pow q third) (\<lambda>c.
        and_then (py_truediv 2 (of_int (9 * df))) (\<lambda>m.
        let mu = 1 - m in
        and_then (py_truediv 2 (of_int (9 * df))) (\<lambda>v.
        and_then (py_sqrt v) (\<lambda>sigma.
        and_then (py_truediv (c - mu) sigma) (\<lambda>z.
        and_then (py_sqrt 2) (\<lambda>r2.
        and_then (py_truediv z r2) (\<lambda>a.
        Inr (chi, 1 - 0.5 * (1 + erf a))))))))))))
    = Inr (chi, 1 - 0.5 * (1 + erf (((chi / 255) powr (1 / 3) - (1 - 2 / (9 * 255))) /
              sqrt (2 / (9 * 255)) / sqrt 2)))"
proof -
  have q: "0 \<le> chi / 255" using assms by simp
  show ?thesis
    by (simp add: Let_def py_truediv_def py_sqrt_def py_pow_third [OF q])
qed

lemma byte_chi_square_value:
  assumes "data \<noteq> []"
  shows "\<exists>chi. 0 \<le> chi \<and> byte_chi_square erf data =
     Inr (chi, 1 - 0.5 * (1 + erf (((chi / 255) powr (1 / 3) - (1 - 2 / (9 * 255))) /
              sqrt (2 / (9 * 255)) / sqrt 2)))"
proof -
  let ?e = "real (length data) / 256"
  let ?cs = "map (\<lambda>v. int (count_list data (of_nat v :: u8))) [0..<256]"
  let ?chi = "sum_list (map (\<lambda>c. (real_of_int c - ?e) * (real_of_int c - ?e) / ?e) ?cs)"
  have e: "0 < ?e" "?e \<noteq> 0" using assms by simp_all
  have n: "(length data = 0) = False" using assms by simp
  have d: "py_truediv (real (length data)) 256 = Inr ?e" by (simp add: py_truediv_def)
  have chi: "0 \<le> ?chi" using e(1) by (rule chi_terms_nonneg)
  have "byte_chi_square erf data =
     Inr (?chi, 1 - 0.5 * (1 + erf (((?chi / 255) powr (1 / 3) - (1 - 2 / (9 * 255))) /
              sqrt (2 / (9 * 255)) / sqrt 2)))"
    unfolding byte_chi_square_def
    by (simp only: Let_def [of "length data"] n if_False count_bytes_value and_then_Inr d
        chi_loop [OF e(2)] chi_tail [OF chi])
  with chi show ?thesis by blast
qed

text \<open>
  C9. For every byte buffer the \<open>p_approx\<close> value returned by \<open>byte_chi_square\<close> lies
  in \<open>[0, 1]\<close>: it is 0 for the empty buffer, and otherwise \<open>1 - \<Phi> z\<close> for the
  Wilson-Hilferty \<open>z = ((chi / 255) ** (1/3) - mu) / sigma\<close>, where
  \<open>\<Phi> z = 0.5 * (1 + erf (z / sqrt 2))\<close>. The error function is the library's; what is
  used of it is that its values lie in \<open>[-1, 1]\<close>.
\<close>

theorem chi_square_p_range:
  assumes "\<And>x. - 1 \<le> erf x \<and> erf x \<le> 1"
  shows "\<exists>chi p. byte_chi_square erf data = Inr (chi, p) \<and> 0 \<le> chi \<and> 0 \<le> p \<and> p \<le> 1 \<and>
     p = (if data = [] then 0
          else 1 - 0.5 * (1 + erf (((chi / 255) powr (1 / 3) - (1 - 2 / (9 * 255))) /
                 sqrt (2 / (9 * 255)) / sqrt 2)))"
proof (cases "data = []")
  case True
  then show ?thesis by (simp add: byte_chi_square_def)
next
  case False
  from byte_chi_square_value [OF False, of erf] obtain chi where chi: "0 \<le> chi"
    and r: "byte_chi_square erf data =
     Inr (chi, 1 - 0.5 * (1 + erf (((chi / 255) powr (1 / 3) - (1 - 2 / (9 * 255))) /
              sqrt (2 / (9 * 255)) / sqrt 2)))" by blast
  let ?a = "((chi / 255) powr (1 / 3) - (1 - 2 / (9 * 255))) / sqrt (2 / (9 * 255)) / sqrt 2"
  from assms [of ?a] have "0 \<le> 1 - 0.5 * (1 + erf ?a) \<and> 1 - 0.5 * (1 + erf ?a) \<le> 1"
    by simp
  with chi r False show ?thesis by auto
qed

theorem chi_square_p_range_witness:
  "(\<exists>chi p. byte_chi_square (\<lambda>x. x / (1 + \<bar>x\<bar>)) [0x00, 0x01] = Inr (chi, p) \<and> 0 \<le> p \<and> p \<le> 1) \<and>
   (\<exists>chi. byte_chi_square (\<lambda>x. x / (1 + \<bar>x\<bar>)) [] = Inr (chi, 0))"
proof -
  have b: "- 1 \<le> x / (1 + \<bar>x\<bar>) \<and> x / (1 + \<bar>x\<bar>) \<le> 1" for x :: real
    by (simp add: field_simps) (auto simp add: abs_if)
  have "\<exists>chi p. byte_chi_square (\<lambda>x. x / (1 + \<bar>x\<bar>)) [0x00, 0x01] = Inr (chi, p) \<and> 0 \<le> p \<and> p \<le> 1"
    using chi_square_p_range [of "\<lambda>x. x / (1 + \<bar>x\<bar>)" "[0x00, 0x01]", OF b] by blast
  moreover have "\<exists>chi. byte_chi_square (\<lambda>x. x / (1 + \<bar>x\<bar>)) [] = Inr (chi, 0)"
    using chi_square_p_range [of "\<lambda>x. x / (1 + \<bar>x\<bar>)" "[]", OF b] by auto
  ultimately show ?thesis by blast
qed

section \<open>The serial correlation\<close>

lemma fold_plus_int: "fold (\<lambda>i acc. acc + f i) xs (a :: int) = a + sum_list (map f xs)"
  by (induction xs arbitrary: a) simp_all

lemma lag_loop:
  "for_each (lag_step data (length data)) [0..<length data] 0 =
     Inr (\<Sum>i = 0..<length data. uint (data ! i) * uint (data ! ((i + 1) mod length data)))"
proof -
  let ?n = "length data"
  let ?f = "\<lambda>i. uint (data ! i) * uint (data ! ((i + 1) mod ?n))"
  have "for_each (lag_step data ?n) [0..<?n] 0 = Inr (fold (\<lambda>i acc. acc + ?f i) [0..<?n] 0)"
  proof (rule for_each_pure)
    fix i acc
    assume "i \<in> set [0..<?n]"
    then have i: "i < ?n" "0 < ?n" by auto
    then show "lag_step data ?n i acc = Inr (acc + ?f i)"
      by (simp add: lag_step_def getitem_def py_mod_def)
  qed
  then show ?thesis
    by (simp only: fold_plus_int interv_sum_list_conv_sum_set_nat set_upt) simp
qed

lemma sum_list_nth_map: "sum_list (map f xs) = (\<Sum>i = 0..<length xs. (f (xs ! i) :: int))"
proof -
  have "sum_list (map f xs) = (\<Sum>i = 0..<length (map f xs). map f xs ! i)"
    by (rule sum_list_sum_nth)
  then show ?thesis by simp
qed

lemma sum_shift:
  fixes g :: "nat \<Rightarrow> int"
  shows "(\<Sum>i = 0..<n. g ((i + 1) mod n)) = (\<Sum>i = 0..<n. g i)"
proof (cases n)
  case 0
  then show ?thesis by simp
next
  case (Suc m)
  have "(\<Sum>i = 0..<Suc m. g ((i + 1) mod Suc m)) = (\<Sum>i = 0..<m. g ((i + 1) mod Suc m)) + g 0"
    by simp
  also have "(\<Sum>i = 0..<m. g ((i + 1) mod Suc m)) = (\<Sum>i = 0..<m. g (Suc i))"
    by (rule sum.cong) simp_all
  also have "(\<Sum>i = 0..<m. g (Suc i)) + g 0 = (\<Sum>i = 0..<Suc m. g i)"
    by (simp add: sum.atLeast0_lessThan_Suc_shift del: sum.op_ivl_Suc)
  finally show ?thesis using Suc by simp
qed

lemma lagrange:
  fixes f :: "nat \<Rightarrow> int"
  shows "(\<Sum>i = 0..<n. \<Sum>j = 0..<n. (f i - f j) * (f i - f j)) =
     2 * (int n * (\<Sum>i = 0..<n. f i * f i) - (\<Sum>i = 0..<n. f i) * (\<Sum>i = 0..<n. f i))"
proof -
  define S1 where "S1 = (\<Sum>i = 0..<n. f i)"
  define S2 where "S2 = (\<Sum>i = 0..<n. f i * f i)"
  have inner: "(\<Sum>j = 0..<n. (f i - f j) * (f i - f j)) = int n * (f i * f i) + S2 - 2 * (f i * S1)" for i
  proof -
    have "(\<Sum>j = 0..<n. (f i - f j) * (f i - f j)) =
          (\<Sum>j = 0..<n. f i * f i + f j * f j - 2 * (f i * f j))"
      by (rule sum.cong) (simp_all add: algebra_simps)
    also have "\<dots> = (\<Sum>j = 0..<n. f i * f i) + (\<Sum>j = 0..<n. f j * f j) - (\<Sum>j = 0..<n. 2 * (f i * f j))"
      by (simp only: sum.distrib sum_subtractf)
    also have "(\<Sum>j = 0..<n. 2 * (f i * f j)) = 2 * (f i * S1)"
      by (simp only: S1_def sum_distrib_left)
    also have "(\<Sum>j = 0..<n. f i * f i) = int n * (f i * f i)"
      by simp
    finally show ?thesis by (simp only: S2_def)
  qed
  have "(\<Sum>i = 0..<n. \<Sum>j = 0..<n. (f i - f j) * (f i - f j)) =
      (\<Sum>i = 0..<n. int n * (f i * f i) + S2 - 2 * (f i * S1))"
    by (simp only: inner)
  also have "\<dots> = (\<Sum>i = 0..<n. int n * (f i * f i)) + (\<Sum>i = 0..<n. S2) - (\<Sum>i = 0..<n. 2 * (f i * S1))"
    by (simp only: sum.distrib sum_subtractf)
  also have "(\<Sum>i = 0..<n. int n * (f i * f i)) = int n * S2"
    by (simp only: S2_def sum_distrib_left)
  also have "(\<Sum>i = 0..<n. 2 * (f i * S1)) = 2 * (S1 * S1)"
    by (simp only: sum_distrib_left [symmetric] sum_distrib_right [symmetric] S1_def [symmetric])
  also have "(\<Sum>i = 0..<n. S2) = int n * S2"
    by simp
  finally show ?thesis by (simp add: S1_def S2_def)
qed

lemma cauchy_schwarz_ones:
  fixes f :: "nat \<Rightarrow> int"
  shows "0 \<le> int n * (\<Sum>i = 0..<n. f i * f i) - (\<Sum>i = 0..<n. f i) * (\<Sum>i = 0..<n. f i)"
proof -
  have "0 \<le> (\<Sum>i = 0..<n. \<Sum>j = 0..<n. (f i - f j) * (f i - f j))"
    by (intro sum_nonneg) simp
  then show ?thesis by (simp only: lagrange) simp
qed

lemma variance_zero_iff:
  fixes f :: "nat \<Rightarrow> int"
  shows "(int n * (\<Sum>i = 0..<n. f i * f i) - (\<Sum>i = 0..<n. f i) * (\<Sum>i = 0..<n. f i) = 0) =
         (\<forall>i<n. \<forall>j<n. f i = f j)"
proof -
  have "(int n * (\<Sum>i = 0..<n. f i * f i) - (\<Sum>i = 0..<n. f i) * (\<Sum>i = 0..<n. f i) = 0) =
        ((\<Sum>i = 0..<n. \<Sum>j = 0..<n. (f i - f j) * (f i - f j)) = 0)"
    by (simp only: lagrange) simp
  also have "\<dots> = (\<forall>i\<in>{0..<n}. (\<Sum>j = 0..<n. (f i - f j) * (f i - f j)) = 0)"
    by (intro sum_nonneg_eq_0_iff) (simp_all add: sum_nonneg)
  also have "\<dots> = (\<forall>i\<in>{0..<n}. \<forall>j\<in>{0..<n}. (f i - f j) * (f i - f j) = 0)"
    by (intro ball_cong refl sum_nonneg_eq_0_iff) simp_all
  also have "\<dots> = (\<forall>i<n. \<forall>j<n. f i = f j)"
    by (simp add: Ball_def)
  finally show ?thesis .
qed

lemma lag1_bounds_gen:
  fixes f :: "nat \<Rightarrow> int" and s :: "nat \<Rightarrow> nat" and n :: nat
  defines "S1 \<equiv> \<Sum>i = 0..<n. f i"
    and "S2 \<equiv> \<Sum>i = 0..<n. f i * f i"
    and "S12 \<equiv> \<Sum>i = 0..<n. f i * f (s i)"
  assumes S1': "(\<Sum>i = 0..<n. f (s i)) = S1"
    and S2': "(\<Sum>i = 0..<n. f (s i) * f (s i)) = S2"
  shows "int n * S12 - S1 * S1 \<le> int n * S2 - S1 * S1"
    and "- (int n * S2 - S1 * S1) \<le> int n * S12 - S1 * S1"
proof -
  have "(\<Sum>i = 0..<n. (f i - f (s i)) * (f i - f (s i))) =
        (\<Sum>i = 0..<n. f i * f i + f (s i) * f (s i) - 2 * (f i * f (s i)))"
    by (rule sum.cong) (simp_all add: algebra_simps)
  also have "\<dots> = (\<Sum>i = 0..<n. f i * f i) + (\<Sum>i = 0..<n. f (s i) * f (s i)) -
       (\<Sum>i = 0..<n. 2 * (f i * f (s i)))"
    by (simp only: sum.distrib sum_subtractf)
  also have "(\<Sum>i = 0..<n. 2 * (f i * f (s i))) = 2 * S12"
    by (simp only: S12_def sum_distrib_left)
  finally have d: "(\<Sum>i = 0..<n. (f i - f (s i)) * (f i - f (s i))) = S2 + S2 - 2 * S12"
    by (simp only: S2' S2_def [symmetric])
  have "0 \<le> (\<Sum>i = 0..<n. (f i - f (s i)) * (f i - f (s i)))"
    by (intro sum_nonneg) simp
  with d have "0 \<le> S2 + S2 - 2 * S12" by simp
  then have "S12 \<le> S2" by simp
  then have "int n * S12 \<le> int n * S2" by (intro mult_left_mono) simp_all
  then show "int n * S12 - S1 * S1 \<le> int n * S2 - S1 * S1" by simp
  have "(\<Sum>i = 0..<n. (f i + f (s i)) * (f i + f (s i))) =
        (\<Sum>i = 0..<n. f i * f i + f (s i) * f (s i) + 2 * (f i * f (s i)))"
    by (rule sum.cong) (simp_all add: algebra_simps)
  also have "\<dots> = (\<Sum>i = 0..<n. f i * f i) + (\<Sum>i = 0..<n. f (s i) * f (s i)) +
       (\<Sum>i = 0..<n. 2 * (f i * f (s i)))"
    by (simp only: sum.distrib)
  also have "(\<Sum>i = 0..<n. 2 * (f i * f (s i))) = 2 * S12"
    by (simp only: S12_def sum_distrib_left)
  finally have y2: "(\<Sum>i = 0..<n. (f i + f (s i)) * (f i + f (s i))) = S2 + S2 + 2 * S12"
    by (simp only: S2' S2_def [symmetric])
  have y1: "(\<Sum>i = 0..<n. f i + f (s i)) = S1 + S1"
    by (simp only: sum.distrib S1' S1_def [symmetric])
  from cauchy_schwarz_ones [of n "\<lambda>i. f i + f (s i)"]
  have "0 \<le> int n * (S2 + S2 + 2 * S12) - (S1 + S1) * (S1 + S1)"
    by (simp only: y1 y2)
  then show "- (int n * S2 - S1 * S1) \<le> int n * S12 - S1 * S1"
    by (simp add: algebra_simps)
qed

lemma if_or_merge: "(if a then x else if b then x else y) = (if a \<or> b then x else y)"
  by simp

lemma corr_tail:
  "(if den = (0 :: int) then Inr 0 else py_truediv (real_of_int num) (real_of_int den)) =
   (if den = 0 then Inr 0 else Inr (real_of_int num / real_of_int den))"
  by (simp add: py_truediv_def)

lemma serial_correlation_value:
  "serial_correlation data =
     (let n = length data;
          S1 = (\<Sum>i = 0..<n. uint (data ! i));
          S2 = (\<Sum>i = 0..<n. uint (data ! i) * uint (data ! i));
          S12 = (\<Sum>i = 0..<n. uint (data ! i) * uint (data ! ((i + 1) mod n)));
          num = int n * S12 - S1 * S1;
          den = int n * S2 - S1 * S1
      in if n < 2 \<or> den = 0 then Inr 0 else Inr (real_of_int num / real_of_int den))"
  unfolding serial_correlation_def
  by (simp only: Let_def lag_loop sum_list_nth_map and_then_Inr corr_tail if_or_merge)

lemma ratio_bounds:
  fixes num den :: int
  assumes "0 \<le> den" and "den \<noteq> 0" and "num \<le> den" and "- den \<le> num"
  shows "- 1 \<le> real_of_int num / real_of_int den \<and> real_of_int num / real_of_int den \<le> 1"
proof -
  have d: "0 < real_of_int den" using assms(1,2) by simp
  have "real_of_int num \<le> real_of_int den" "- real_of_int den \<le> real_of_int num"
    using assms(3,4) by linarith+
  with d show ?thesis by (simp add: field_simps)
qed

text \<open>
  C2. For every byte buffer \<open>serial_correlation\<close> returns a value in \<open>[-1, 1]\<close>: it
  returns 0 when the buffer has fewer than two bytes or when the denominator
  \<open>n * S2 - S1 * S1\<close> is zero, which is the case exactly for a constant buffer, and
  otherwise the ratio \<open>(n * S12 - S1 * S1) / (n * S2 - S1 * S1)\<close> of the circular lag-1
  sums, which lies in \<open>[-1, 1]\<close>.
\<close>

theorem serial_correlation_range:
  "\<exists>rho. serial_correlation data = Inr rho \<and> - 1 \<le> rho \<and> rho \<le> 1 \<and>
     (let n = length data;
          S1 = (\<Sum>i = 0..<n. uint (data ! i));
          S2 = (\<Sum>i = 0..<n. uint (data ! i) * uint (data ! i));
          S12 = (\<Sum>i = 0..<n. uint (data ! i) * uint (data ! ((i + 1) mod n)));
          num = int n * S12 - S1 * S1;
          den = int n * S2 - S1 * S1
      in rho = (if n < 2 \<or> den = 0 then 0 else real_of_int num / real_of_int den) \<and>
         (den = 0) = (\<forall>i<n. \<forall>j<n. data ! i = data ! j))"
proof -
  define n where "n = length data"
  define f where "f i = uint (data ! i)" for i
  define S1 where "S1 = (\<Sum>i = 0..<n. f i)"
  define S2 where "S2 = (\<Sum>i = 0..<n. f i * f i)"
  define S12 where "S12 = (\<Sum>i = 0..<n. f i * f ((i + 1) mod n))"
  define num where "num = int n * S12 - S1 * S1"
  define den where "den = int n * S2 - S1 * S1"
  define rho where "rho = (if n < 2 \<or> den = 0 then 0 else real_of_int num / real_of_int den)"
  have val: "serial_correlation data = Inr rho"
    by (simp add: serial_correlation_value Let_def rho_def num_def den_def S1_def S2_def S12_def
        f_def n_def)
  have den0: "0 \<le> den"
    unfolding den_def S1_def S2_def by (rule cauchy_schwarz_ones)
  have up: "num \<le> den" and lo: "- den \<le> num"
    unfolding num_def den_def S1_def S2_def S12_def
    by (rule lag1_bounds_gen [OF sum_shift sum_shift [of "\<lambda>i. f i * f i"]])+
  have range: "- 1 \<le> rho \<and> rho \<le> 1"
  proof (cases "n < 2 \<or> den = 0")
    case True
    then show ?thesis by (simp add: rho_def)
  next
    case False
    with ratio_bounds [OF den0 _ up lo] show ?thesis by (simp add: rho_def)
  qed
  have "(den = 0) = (\<forall>i<n. \<forall>j<n. f i = f j)"
    unfolding den_def S1_def S2_def by (rule variance_zero_iff)
  then have const: "(den = 0) = (\<forall>i<n. \<forall>j<n. data ! i = data ! j)"
    by (simp add: f_def word_uint_eq_iff)
  from val range const have "serial_correlation data = Inr rho \<and> - 1 \<le> rho \<and> rho \<le> 1 \<and>
      rho = (if n < 2 \<or> den = 0 then 0 else real_of_int num / real_of_int den) \<and>
      (den = 0) = (\<forall>i<n. \<forall>j<n. data ! i = data ! j)"
    by (simp only: rho_def)
  then have "\<exists>rho. serial_correlation data = Inr rho \<and> - 1 \<le> rho \<and> rho \<le> 1 \<and>
      rho = (if n < 2 \<or> den = 0 then 0 else real_of_int num / real_of_int den) \<and>
      (den = 0) = (\<forall>i<n. \<forall>j<n. data ! i = data ! j)"
    by (rule exI)
  then show ?thesis
    unfolding Let_def num_def den_def S1_def S2_def S12_def f_def n_def .
qed

theorem serial_correlation_range_witness:
  "serial_correlation [1, 2, 3] = Inr (- 1 / 2) \<and> serial_correlation [0x42, 0x42] = Inr 0 \<and>
   serial_correlation [] = Inr 0"
proof -
  have s: "{0..<3::nat} = {0, 1, 2}" "{0..<2::nat} = {0, 1}" by auto
  show ?thesis
    using serial_correlation_range [of "[1, 2, 3]"] serial_correlation_range [of "[0x42, 0x42]"]
      serial_correlation_range [of "[]"]
    by (simp add: Let_def s)
qed

section \<open>Totality of the five tests\<close>

lemma for_each_total:
  assumes "\<And>x acc. x \<in> set xs \<Longrightarrow> \<exists>r. body x acc = Inr r"
  shows "\<exists>r. for_each body xs acc = Inr r"
  using assms
proof (induction xs arbitrary: acc)
  case Nil
  then show ?case by simp
next
  case (Cons x xs)
  from Cons.prems [of x acc] obtain r where r: "body x acc = Inr r" by auto
  from Cons.IH [of r] Cons.prems obtain r' where "for_each body xs r = Inr r'" by auto
  with r show ?case by simp
qed

lemma entropy_step_total:
  assumes mono: "\<And>x y. x \<le> y \<Longrightarrow> fl x \<le> fl y"
    and tiny: "0 < fl (1 / 2 ^ 63)"
    and n: "0 < n" "n < 2 ^ 63"
    and c: "0 \<le> c"
  shows "\<exists>r. entropy_step fl lg n c e = Inr r"
proof (cases "c = 0")
  case True
  then show ?thesis by (simp add: entropy_step_def)
next
  case False
  with c have "1 \<le> real_of_int c" by simp
  moreover have "real n \<le> 2 ^ 63" using n(2) by (metis less_imp_le of_nat_le_iff of_nat_numeral of_nat_power)
  ultimately have "1 / 2 ^ 63 \<le> real_of_int c / real n"
    using n(1) by (intro frac_le) simp_all
  from mono [OF this] tiny have "0 < fl (real_of_int c / real n)" by linarith
  then have "\<not> fl (real_of_int c / real n) \<le> 0" by simp
  with False n(1) show ?thesis
    by (simp add: entropy_step_def py_truediv_def py_log2_def Let_def)
qed

lemma shannon_entropy_total:
  assumes mono: "\<And>x y. x \<le> y \<Longrightarrow> fl x \<le> fl y"
    and tiny: "0 < fl (1 / 2 ^ 63)"
    and len: "length data < 2 ^ 63"
  shows "\<exists>r. shannon_entropy_per_byte fl lg data = Inr r"
proof (cases "data = []")
  case True
  then show ?thesis by (simp add: shannon_entropy_per_byte_def)
next
  case False
  then have n: "0 < length data" by simp
  have "\<exists>r. for_each (entropy_step fl lg (length data))
      (map (\<lambda>v. int (count_list data (of_nat v :: u8))) [0..<256]) 0 = Inr r"
  proof (rule for_each_total)
    fix x acc
    assume "x \<in> set (map (\<lambda>v. int (count_list data (of_nat v :: u8))) [0..<256])"
    then have x: "0 \<le> x" by auto
    show "\<exists>r. entropy_step fl lg (length data) x acc = Inr r"
      by (rule entropy_step_total [where fl = fl]) (rule mono tiny n len x | assumption)+
  qed
  with False show ?thesis
    by (simp add: shannon_entropy_per_byte_def count_bytes_value Let_def)
qed

lemma runs_test_total: "\<exists>r. runs_test erfc data = Inr r"
proof (cases "data = []")
  case True
  then show ?thesis by (simp add: runs_test_empty)
next
  case False
  show ?thesis
  proof (cases "sum_list (bits_from_bytes data) = 0 \<or>
         int (length (bits_from_bytes data)) - sum_list (bits_from_bytes data) = 0")
    case True
    from runs_test_constant [OF False True] show ?thesis by blast
  next
    case c: False
    with runs_test_general [OF False, of erfc] show ?thesis by blast
  qed
qed

lemma byte_chi_square_total: "\<exists>r. byte_chi_square erf data = Inr r"
proof (cases "data = []")
  case True
  then show ?thesis by (simp add: byte_chi_square_def)
next
  case False
  from byte_chi_square_value [OF False, of erf] show ?thesis by blast
qed

lemma serial_correlation_total: "\<exists>r. serial_correlation data = Inr r"
  by (simp only: serial_correlation_value Let_def) (simp only: if_distrib [of "\<lambda>x. x = Inr _"] split: if_split, blast)

text \<open>
  C3. For every byte buffer, the empty one included, each of \<open>monobit_test\<close>,
  \<open>runs_test\<close>, \<open>byte_chi_square\<close>, \<open>shannon_entropy_per_byte\<close> and
  \<open>serial_correlation\<close> returns a result: no branch that raises is taken. On the empty
  buffer each returns its degenerate result; in particular the entropy and the serial
  correlation are 0. For the entropy, whose operations round, what is used of the
  platform is that rounding is monotone, that \<open>2 ^ -63\<close> rounds to a positive double (it is
  one), and that a \<open>bytes\<close> object has fewer than \<open>2 ^ 63\<close> elements: then the rounded
  \<open>c / n\<close> of a count \<open>c \<ge> 1\<close> is positive and \<open>math.log2\<close> accepts it.
\<close>

theorem tests_total:
  "(\<exists>r. monobit_test erfc data = Inr r) \<and>
   (\<exists>r. runs_test erfc data = Inr r) \<and>
   (\<exists>r. byte_chi_square erf data = Inr r) \<and>
   ((\<forall>x y. x \<le> y \<longrightarrow> fl x \<le> fl y) \<and> 0 < fl (1 / 2 ^ 63) \<and> length data < 2 ^ 63 \<longrightarrow>
      (\<exists>r. shannon_entropy_per_byte fl lg data = Inr r)) \<and>
   (\<exists>r. serial_correlation data = Inr r) \<and>
   monobit_test erfc [] = Inr (0, 0, 0, 0) \<and>
   runs_test erfc [] = Inr (0, 0, 0, Finite 0) \<and>
   byte_chi_square erf [] = Inr (0, 0) \<and>
   shannon_entropy_per_byte fl lg [] = Inr 0 \<and>
   serial_correlation [] = Inr 0"
proof -
  have "\<exists>r. monobit_test erfc data = Inr r"
    by (cases "data = []") (simp_all add: monobit_test_value Let_def)
  moreover have "monobit_test erfc [] = Inr (0, 0, 0, 0)"
    by (simp add: monobit_test_value)
  moreover have "byte_chi_square erf [] = Inr (0, 0)"
    by (simp add: byte_chi_square_def)
  moreover have "shannon_entropy_per_byte fl lg [] = Inr 0"
    by (simp add: shannon_entropy_per_byte_def)
  moreover have "serial_correlation [] = Inr 0"
    by (simp add: serial_correlation_def)
  moreover have "\<exists>r. shannon_entropy_per_byte fl lg data = Inr r"
    if "\<forall>x y. x \<le> y \<longrightarrow> fl x \<le> fl y" and "0 < fl (1 / 2 ^ 63)" and "length data < 2 ^ 63"
  proof (rule shannon_entropy_total [where fl = fl])
    show "fl x \<le> fl y" if "x \<le> y" for x y
      using \<open>\<forall>x y. x \<le> y \<longrightarrow> fl x \<le> fl y\<close> that by blast
  qed (fact that(2,3))+
  ultimately show ?thesis
    using runs_test_total [of erfc data] byte_chi_square_total [of erf data]
      serial_correlation_total [of data] runs_test_empty [of erfc]
    by blast
qed

theorem tests_total_witness:
  "(\<exists>r. monobit_test (\<lambda>x. 1 / (1 + x)) [0x12, 0x34, 0x12] = Inr r) \<and>
   (\<exists>r. runs_test (\<lambda>x. 1 / (1 + x)) [0x12, 0x34, 0x12] = Inr r) \<and>
   (\<exists>r. byte_chi_square (\<lambda>x. x / (1 + \<bar>x\<bar>)) [0x12, 0x34, 0x12] = Inr r) \<and>
   (\<exists>r. shannon_entropy_per_byte (\<lambda>x. x) (log 2) [0x12, 0x34, 0x12] = Inr r) \<and>
   (\<exists>r. serial_correlation [0x12, 0x34, 0x12] = Inr r) \<and>
   shannon_entropy_per_byte (\<lambda>x. x) (log 2) [] = Inr 0 \<and>
   serial_correlation [] = Inr 0"
proof -
  have "(\<forall>x y :: real. x \<le> y \<longrightarrow> x \<le> y) \<and> (0 :: real) < 1 / 2 ^ 63 \<and>
      length [0x12, 0x34, 0x12 :: u8] < 2 ^ 63"
    by simp
  then show ?thesis
    using tests_total [of "\<lambda>x. 1 / (1 + x)" "[0x12, 0x34, 0x12]" "\<lambda>x. x / (1 + \<bar>x\<bar>)" "\<lambda>x. x" "log 2"]
    by blast
qed

end
